theory Spec2Isabelle
  imports Complex_Main "HOL-Library.Word" "HOL-Library.Char_ord" "HOL-Library.List_Lexorder"
begin

unbundle bit_operations_syntax

section \<open>Ordered dictionaries\<close>

text \<open>
  \<^verbatim>\<open>collections.OrderedDict\<close> as an association list in iteration order: the head is
  the oldest position, the last element the newest. Only the operations that
  \<^verbatim>\<open>src/utils/cache.py\<close> calls are modelled.
\<close>

type_synonym ('k, 'e) ordered_dict = "('k \<times> 'e) list"

definition od_keys :: "('k, 'e) ordered_dict \<Rightarrow> 'k list" where
  "od_keys d = map fst d"

text \<open>\<^verbatim>\<open>key in d\<close>\<close>

definition od_contains :: "('k, 'e) ordered_dict \<Rightarrow> 'k \<Rightarrow> bool" where
  "od_contains d k = (k \<in> set (od_keys d))"

text \<open>\<^verbatim>\<open>d[key]\<close>; \<open>None\<close> stands for the KeyError of a missing key.\<close>

definition od_getitem :: "('k, 'e) ordered_dict \<Rightarrow> 'k \<Rightarrow> 'e option" where
  "od_getitem d k = map_of d k"

text \<open>\<^verbatim>\<open>del d[key]\<close>, used by the source only after a membership test.\<close>

definition od_delitem :: "('k, 'e) ordered_dict \<Rightarrow> 'k \<Rightarrow> ('k, 'e) ordered_dict" where
  "od_delitem d k = filter (\<lambda>p. fst p \<noteq> k) d"

text \<open>\<^verbatim>\<open>d[key] = e\<close>: an existing key keeps its position, a new key goes to the end.\<close>

fun od_setitem :: "('k, 'e) ordered_dict \<Rightarrow> 'k \<Rightarrow> 'e \<Rightarrow> ('k, 'e) ordered_dict" where
  "od_setitem [] k e = [(k, e)]"
| "od_setitem (p # d) k e = (if fst p = k then (k, e) # d else p # od_setitem d k e)"

text \<open>\<^verbatim>\<open>d.move_to_end(key)\<close>; the source calls it on a key it has just looked up.\<close>

definition od_move_to_end :: "('k, 'e) ordered_dict \<Rightarrow> 'k \<Rightarrow> ('k, 'e) ordered_dict" where
  "od_move_to_end d k =
     (case map_of d k of None \<Rightarrow> d | Some e \<Rightarrow> od_delitem d k @ [(k, e)])"

text \<open>
  \<^verbatim>\<open>d.popitem(last=False)\<close>: removes and returns the first item; \<open>None\<close> stands for
  the KeyError on an empty dictionary.
\<close>

definition od_popitem_first :: "('k, 'e) ordered_dict \<Rightarrow> (('k \<times> 'e) \<times> ('k, 'e) ordered_dict) option" where
  "od_popitem_first d = (case d of [] \<Rightarrow> None | p # r \<Rightarrow> Some (p, r))"

text \<open>
  The entries are objects held by reference: a field assignment on the entry stored
  under a key changes the entry inside the dictionary.
\<close>

definition od_modify :: "('k, 'e) ordered_dict \<Rightarrow> 'k \<Rightarrow> ('e \<Rightarrow> 'e) \<Rightarrow> ('k, 'e) ordered_dict" where
  "od_modify d k f = map (\<lambda>p. if fst p = k then (fst p, f (snd p)) else p) d"


section \<open>Cache entries\<close>

text \<open>
  Modelled from the spec: the class \<^verbatim>\<open>CacheEntry\<close> of \<^verbatim>\<open>src/models/schemas.py\<close>, which
  \<^verbatim>\<open>cache.py\<close> imports, is not among the sources. The spec gives its fields (key, value,
  created_at, accessed_at, access_count, ttl), says that a new entry has
  \<^verbatim>\<open>created_at = now\<close> and \<^verbatim>\<open>access_count = 0\<close>, and that an entry is expired when
  \<^verbatim>\<open>now - created_at > ttl\<close>. Timestamps are seconds on the real line.
\<close>

record 'v CacheEntry =
  entry_key :: string
  entry_value :: 'v
  created_at :: real
  accessed_at :: real
  access_count :: int
  entry_ttl :: int

definition new_CacheEntry :: "string \<Rightarrow> 'v \<Rightarrow> int \<Rightarrow> real \<Rightarrow> 'v CacheEntry" where
  "new_CacheEntry k v t now =
     \<lparr>entry_key = k, entry_value = v, created_at = now, accessed_at = now,
      access_count = 0, entry_ttl = t\<rparr>"

definition is_expired :: "'v CacheEntry \<Rightarrow> real \<Rightarrow> bool" where
  "is_expired e now = (now - created_at e > real_of_int (entry_ttl e))"


section \<open>LRUCache\<close>

record 'v LRUCache =
  max_size :: int
  ttl :: int
  cache :: "(string, 'v CacheEntry) ordered_dict"
  hits :: int
  misses :: int

definition LRUCache_init :: "int \<Rightarrow> int \<Rightarrow> 'v LRUCache" where
  "LRUCache_init m t = \<lparr>max_size = m, ttl = t, cache = [], hits = 0, misses = 0\<rparr>"

text \<open>
  \<^verbatim>\<open>LRUCache.get\<close>. The clock is read twice: by \<^verbatim>\<open>entry.is_expired()\<close> (\<open>now\<close>) and,
  on a hit, for \<^verbatim>\<open>accessed_at\<close> (\<open>now'\<close>). The result is the returned value
  (\<open>None\<close> for Python's \<^verbatim>\<open>None\<close>) with the cache after the call.
\<close>

definition LRUCache_get :: "'v LRUCache \<Rightarrow> string \<Rightarrow> real \<Rightarrow> real \<Rightarrow> 'v option \<times> 'v LRUCache" where
  "LRUCache_get c k now now' =
     (if \<not> od_contains (cache c) k then (None, c\<lparr>misses := misses c + 1\<rparr>)
      else case od_getitem (cache c) k of
        None \<Rightarrow> (None, c)
      | Some entry \<Rightarrow>
          if is_expired entry now
          then (None, c\<lparr>cache := od_delitem (cache c) k, misses := misses c + 1\<rparr>)
          else (Some (entry_value entry),
                c\<lparr>cache := od_modify (od_move_to_end (cache c) k) k
                       (\<lambda>e. e\<lparr>accessed_at := now', access_count := access_count e + 1\<rparr>),
                  hits := hits c + 1\<rparr>))"

text \<open>
  \<^verbatim>\<open>LRUCache.set\<close>. After the insertion the dictionary is not empty, so the
  \<^verbatim>\<open>popitem\<close> of the eviction cannot raise; the \<open>None\<close> branch is there for totality.
\<close>

definition LRUCache_set :: "'v LRUCache \<Rightarrow> string \<Rightarrow> 'v \<Rightarrow> real \<Rightarrow> 'v LRUCache" where
  "LRUCache_set c k v now =
     (let entry = new_CacheEntry k v (ttl c) now;
          d1 = (if od_contains (cache c) k then od_delitem (cache c) k else cache c);
          d2 = od_setitem d1 k entry
      in if int (length d2) > max_size c
         then (case od_popitem_first d2 of
                 None \<Rightarrow> c\<lparr>cache := d2\<rparr>
               | Some (evicted, d3) \<Rightarrow> c\<lparr>cache := d3\<rparr>)
         else c\<lparr>cache := d2\<rparr>)"

definition LRUCache_delete :: "'v LRUCache \<Rightarrow> string \<Rightarrow> bool \<times> 'v LRUCache" where
  "LRUCache_delete c k =
     (if od_contains (cache c) k then (True, c\<lparr>cache := od_delitem (cache c) k\<rparr>)
      else (False, c))"

definition LRUCache_clear :: "'v LRUCache \<Rightarrow> 'v LRUCache" where
  "LRUCache_clear c = c\<lparr>cache := [], hits := 0, misses := 0\<rparr>"

text \<open>\<^verbatim>\<open>__len__\<close> and \<^verbatim>\<open>__contains__\<close>\<close>

definition LRUCache_len :: "'v LRUCache \<Rightarrow> int" where
  "LRUCache_len c = int (length (cache c))"

definition LRUCache_contains :: "'v LRUCache \<Rightarrow> string \<Rightarrow> bool" where
  "LRUCache_contains c k = od_contains (cache c) k"

text \<open>The keys in stored order, least recently used first.\<close>

definition stored_keys :: "'v LRUCache \<Rightarrow> string list" where
  "stored_keys c = od_keys (cache c)"

text \<open>A history of calls on one cache, each with the clock readings it makes.\<close>

datatype 'v cache_call =
    Get string real real
  | Set string 'v real
  | Delete string
  | Clear

fun do_call :: "'v LRUCache \<Rightarrow> 'v cache_call \<Rightarrow> 'v LRUCache" where
  "do_call c (Get k now now') = snd (LRUCache_get c k now now')"
| "do_call c (Set k v now) = LRUCache_set c k v now"
| "do_call c (Delete k) = snd (LRUCache_delete c k)"
| "do_call c Clear = LRUCache_clear c"

definition run_calls :: "'v LRUCache \<Rightarrow> 'v cache_call list \<Rightarrow> 'v LRUCache" where
  "run_calls c calls = foldl do_call c calls"


text \<open>
  What every cache reached from \<^verbatim>\<open>__init__\<close> satisfies: the keys are pairwise different
  and there are at most \<open>max_size\<close> of them.
\<close>

definition cache_inv :: "'v LRUCache \<Rightarrow> bool" where
  "cache_inv c = (distinct (stored_keys c) \<and> LRUCache_len c \<le> max_size c)"


section \<open>Exceptions, wrapped operations and the world they run in\<close>

text \<open>
  A raised exception is its class name with the pieces of its message; a piece is literal
  text or a float that an f-string formats into the message.
\<close>

datatype msg_part = Text string | Float real

datatype py_exception = PyException (exc_class: string) (exc_message: "msg_part list")

text \<open>
  A wrapped function reads and writes some state \<open>'s\<close> and either returns a value or
  raises. The world records, besides that state, the outcome of every invocation and every
  duration passed to \<^verbatim>\<open>time.sleep\<close>, oldest first.
\<close>

type_synonym ('s, 'a) operation = "'s \<Rightarrow> (py_exception + 'a) \<times> 's"

record ('s, 'a) world =
  op_state :: 's
  invoked :: "(py_exception + 'a) list"
  slept :: "real list"

definition fresh_world :: "'s \<Rightarrow> ('s, 'a) world" where
  "fresh_world s = \<lparr>op_state = s, invoked = [], slept = []\<rparr>"

definition invoke :: "('s, 'a) operation \<Rightarrow> ('s, 'a) world \<Rightarrow> (py_exception + 'a) \<times> ('s, 'a) world" where
  "invoke func w =
     (case func (op_state w) of
        (r, s') \<Rightarrow> (r, w\<lparr>op_state := s', invoked := invoked w @ [r]\<rparr>))"

text \<open>\<^verbatim>\<open>time.sleep(d)\<close> raises ValueError for a negative duration.\<close>

definition time_sleep :: "real \<Rightarrow> ('s, 'a) world \<Rightarrow> py_exception option \<times> ('s, 'a) world" where
  "time_sleep d w =
     (if d < 0 then (Some (PyException ''ValueError'' [Text ''sleep length must be non-negative'']), w)
      else (None, w\<lparr>slept := slept w @ [d]\<rparr>))"


section \<open>Retry with exponential backoff\<close>

text \<open>Delays and clock readings are Python floats; they are taken as real numbers.\<close>

definition exponential_backoff :: "nat \<Rightarrow> real \<Rightarrow> real \<Rightarrow> real \<Rightarrow> real" where
  "exponential_backoff attempt base_delay max_delay exponential_base =
     min (base_delay * exponential_base ^ attempt) max_delay"

text \<open>
  The decorator's arguments. \<open>exceptions\<close> is the \<^verbatim>\<open>isinstance\<close> test against the tuple
  of exception types. The callback, when there is one, may change the state and may raise
  (\<open>Some\<close>).
\<close>

record 's retry_config =
  max_retries :: int
  base_delay :: real
  max_delay :: real
  exponential_base :: real
  exceptions :: "py_exception \<Rightarrow> bool"
  on_retry :: "(py_exception \<Rightarrow> nat \<Rightarrow> 's \<Rightarrow> py_exception option \<times> 's) option"

definition run_on_retry ::
  "'s retry_config \<Rightarrow> py_exception \<Rightarrow> nat \<Rightarrow> ('s, 'a) world \<Rightarrow> py_exception option \<times> ('s, 'a) world" where
  "run_on_retry cfg e attempt w =
     (case on_retry cfg of
        None \<Rightarrow> (None, w)
      | Some callback \<Rightarrow>
          (case callback e attempt (op_state w) of (r, s') \<Rightarrow> (r, w\<lparr>op_state := s'\<rparr>)))"

text \<open>
  The \<^verbatim>\<open>for attempt in range(max_retries + 1)\<close> loop of the wrapper, over the attempts
  still to make. The result is \<open>Inl\<close> for an exception that leaves the wrapper,
  \<open>Inr (Some r)\<close> for a returned result, and \<open>Inr None\<close> when the wrapper falls off its
  end.
\<close>

fun retry_loop ::
  "'s retry_config \<Rightarrow> ('s, 'a) operation \<Rightarrow> nat list \<Rightarrow> py_exception option \<Rightarrow> ('s, 'a) world
     \<Rightarrow> (py_exception + 'a option) \<times> ('s, 'a) world" where
  "retry_loop cfg func [] last_exception w =
     (case last_exception of None \<Rightarrow> (Inr None, w) | Some e \<Rightarrow> (Inl e, w))"
| "retry_loop cfg func (attempt # rest) last_exception w =
     (case invoke func w of
        (Inr r, w1) \<Rightarrow> (Inr (Some r), w1)
      | (Inl e, w1) \<Rightarrow>
          if \<not> exceptions cfg e then (Inl e, w1)
          else if int attempt = max_retries cfg then (Inl e, w1)
          else
            let delay = exponential_backoff attempt (base_delay cfg) (max_delay cfg)
                          (exponential_base cfg)
            in (case run_on_retry cfg e attempt w1 of
                  (Some raised, w2) \<Rightarrow> (Inl raised, w2)
                | (None, w2) \<Rightarrow>
                    (case time_sleep delay w2 of
                       (Some raised, w3) \<Rightarrow> (Inl raised, w3)
                     | (None, w3) \<Rightarrow> retry_loop cfg func rest (Some e) w3)))"

definition retry_with_exponential_backoff ::
  "'s retry_config \<Rightarrow> ('s, 'a) operation \<Rightarrow> ('s, 'a) world
     \<Rightarrow> (py_exception + 'a option) \<times> ('s, 'a) world" where
  "retry_with_exponential_backoff cfg func w =
     retry_loop cfg func [0..<nat (max_retries cfg + 1)] None w"



text \<open>A policy, an operation that always times out and one that rejects its input.\<close>

definition timeout_error :: py_exception where
  "timeout_error = PyException ''LLMTimeoutError'' [Text ''timed out'']"

definition example_policy :: "nat retry_config" where
  "example_policy =
     \<lparr>max_retries = 3, base_delay = 1, max_delay = 3, exponential_base = 2,
      exceptions = (\<lambda>e. exc_class e = ''LLMTimeoutError''), on_retry = None\<rparr>"

definition timing_out :: "(nat, unit) operation" where
  "timing_out = (\<lambda>s. (Inl timeout_error, s + 1))"

definition rejecting_input :: "(nat, unit) operation" where
  "rejecting_input = (\<lambda>s. (Inl (PyException ''ValueError'' [Text ''bad input'']), s + 1))"


section \<open>Circuit breaker\<close>

text \<open>The state is the string the source stores: closed, open or half\_open.\<close>

record CircuitBreaker =
  failure_threshold :: int
  recovery_timeout :: real
  expected_exceptions :: "py_exception \<Rightarrow> bool"
  failure_count :: int
  last_failure_time :: "real option"
  state :: string

definition CircuitBreaker_init :: "int \<Rightarrow> real \<Rightarrow> (py_exception \<Rightarrow> bool) \<Rightarrow> CircuitBreaker" where
  "CircuitBreaker_init threshold timeout expected =
     \<lparr>failure_threshold = threshold, recovery_timeout = timeout,
      expected_exceptions = expected, failure_count = 0, last_failure_time = None,
      state = ''closed''\<rparr>"

definition should_attempt_reset :: "CircuitBreaker \<Rightarrow> real \<Rightarrow> bool" where
  "should_attempt_reset cb now =
     (case last_failure_time cb of
        None \<Rightarrow> True
      | Some t \<Rightarrow> now - t \<ge> recovery_timeout cb)"

definition on_success :: "CircuitBreaker \<Rightarrow> CircuitBreaker" where
  "on_success cb =
     (if state cb = ''half_open'' then cb\<lparr>state := ''closed''\<rparr> else cb)\<lparr>failure_count := 0\<rparr>"

definition on_failure :: "CircuitBreaker \<Rightarrow> real \<Rightarrow> CircuitBreaker" where
  "on_failure cb now =
     (let cb1 = cb\<lparr>failure_count := failure_count cb + 1, last_failure_time := Some now\<rparr>
      in if failure_count cb1 \<ge> failure_threshold cb1 then cb1\<lparr>state := ''open''\<rparr> else cb1)"

text \<open>The exception that \<^verbatim>\<open>call\<close> raises itself while the circuit is open.\<close>

definition circuit_open_exception :: "CircuitBreaker \<Rightarrow> py_exception" where
  "circuit_open_exception cb =
     PyException ''Exception''
       [Text ''Circuit breaker is OPEN. Retry after '', Float (recovery_timeout cb), Text ''s'']"

text \<open>
  The first statement of \<^verbatim>\<open>call\<close>: what happens before the wrapped function is
  reached. \<open>now\<close> is the clock as \<^verbatim>\<open>_should_attempt_reset\<close> reads it.
\<close>

definition call_gate :: "CircuitBreaker \<Rightarrow> real \<Rightarrow> py_exception + CircuitBreaker" where
  "call_gate cb now =
     (if state cb = ''open''
      then (if should_attempt_reset cb now then Inr (cb\<lparr>state := ''half_open''\<rparr>)
            else Inl (circuit_open_exception cb))
      else Inr cb)"

text \<open>
  \<^verbatim>\<open>CircuitBreaker.call\<close>; \<open>now'\<close> is the clock as \<^verbatim>\<open>_on_failure\<close> reads it. An
  exception outside \<open>expected_exceptions\<close> passes through the \<^verbatim>\<open>except\<close> clause.
\<close>

definition CircuitBreaker_call ::
  "CircuitBreaker \<Rightarrow> ('s, 'a) operation \<Rightarrow> ('s, 'a) world \<Rightarrow> real \<Rightarrow> real
     \<Rightarrow> (py_exception + 'a) \<times> CircuitBreaker \<times> ('s, 'a) world" where
  "CircuitBreaker_call cb func w now now' =
     (case call_gate cb now of
        Inl rejection \<Rightarrow> (Inl rejection, cb, w)
      | Inr cb1 \<Rightarrow>
          (case invoke func w of
             (Inr result, w1) \<Rightarrow> (Inr result, on_success cb1, w1)
           | (Inl e, w1) \<Rightarrow>
               if expected_exceptions cb1 e then (Inl e, on_failure cb1 now', w1)
               else (Inl e, cb1, w1)))"

definition CircuitBreaker_reset :: "CircuitBreaker \<Rightarrow> CircuitBreaker" where
  "CircuitBreaker_reset cb =
     cb\<lparr>state := ''closed'', failure_count := 0, last_failure_time := None\<rparr>"

text \<open>
  A history of one breaker: calls, each with the outcome of the wrapped function should it
  be reached and the two clock readings, and manual resets.
\<close>

datatype breaker_event = Call "py_exception option" real real | Reset

fun breaker_step :: "CircuitBreaker \<Rightarrow> breaker_event \<Rightarrow> CircuitBreaker" where
  "breaker_step cb (Call outcome now now') =
     fst (snd (CircuitBreaker_call cb
        (\<lambda>s. (case outcome of None \<Rightarrow> Inr () | Some e \<Rightarrow> Inl e, s)) (fresh_world ()) now now'))"
| "breaker_step cb Reset = CircuitBreaker_reset cb"

definition run_breaker :: "CircuitBreaker \<Rightarrow> breaker_event list \<Rightarrow> CircuitBreaker" where
  "run_breaker cb events = foldl breaker_step cb events"

text \<open>While the circuit is open or half open, the failures have reached the threshold.\<close>

definition breaker_inv :: "CircuitBreaker \<Rightarrow> bool" where
  "breaker_inv cb =
     (state cb = ''open'' \<or> state cb = ''half_open'' \<longrightarrow> failure_threshold cb \<le> failure_count cb)"

text \<open>
  A breaker that one failure has opened at time 0, and an operation that succeeds.
\<close>

definition tripped_breaker :: CircuitBreaker where
  "tripped_breaker =
     run_breaker (CircuitBreaker_init 1 60 (\<lambda>e. True)) [Call (Some timeout_error) 0 0]"

definition succeeding :: "(nat, unit) operation" where
  "succeeding = (\<lambda>s. (Inr (), s + 1))"

text \<open>An operation whose own failure has the class and the message of the rejection.\<close>

definition impostor :: "(nat, unit) operation" where
  "impostor = (\<lambda>s. (Inl (PyException ''Exception''
       [Text ''Circuit breaker is OPEN. Retry after '', Float 60, Text ''s'']), s + 1))"


section \<open>JSON text of the key material\<close>

text \<open>
  \<^verbatim>\<open>json.dumps(key_data, sort_keys=True)\<close> on the values it can serialise: \<^verbatim>\<open>None\<close>,
  booleans, integers, strings, lists and dictionaries with string keys (floats are left
  out). A string is a list of code points below 256. With the default
  \<^verbatim>\<open>ensure_ascii\<close> every character outside the printable ASCII range is written as an
  escape, the separators are \<^verbatim>\<open>", "\<close> and \<^verbatim>\<open>": "\<close>, and the items of a dictionary are
  sorted by key, strings comparing by code point.
\<close>

datatype json =
    JNull
  | JBool bool
  | JInt int
  | JStr string
  | JList "json list"
  | JDict "(string \<times> json) list"

definition hex_digit :: "nat \<Rightarrow> char" where
  "hex_digit d = ''0123456789abcdef'' ! (d mod 16)"

definition hex4 :: "nat \<Rightarrow> string" where
  "hex4 n = [hex_digit (n div 4096), hex_digit (n div 256), hex_digit (n div 16), hex_digit n]"

definition json_escape_char :: "char \<Rightarrow> string" where
  "json_escape_char c =
     (if c = CHR 0x22 then [CHR 0x5C, CHR 0x22]
      else if c = CHR 0x5C then [CHR 0x5C, CHR 0x5C]
      else if c = CHR 0x0A then [CHR 0x5C, CHR ''n'']
      else if c = CHR 0x0D then [CHR 0x5C, CHR ''r'']
      else if c = CHR 0x09 then [CHR 0x5C, CHR ''t'']
      else if c = CHR 0x08 then [CHR 0x5C, CHR ''b'']
      else if c = CHR 0x0C then [CHR 0x5C, CHR ''f'']
      else if 32 \<le> (of_char c :: nat) \<and> (of_char c :: nat) \<le> 126 then [c]
      else [CHR 0x5C, CHR ''u''] @ hex4 (of_char c))"

definition json_string :: "string \<Rightarrow> string" where
  "json_string s = [CHR 0x22] @ concat (map json_escape_char s) @ [CHR 0x22]"

fun digits :: "nat \<Rightarrow> string" where
  "digits n = (if n < 10 then [hex_digit n] else digits (n div 10) @ [hex_digit (n mod 10)])"

definition json_int :: "int \<Rightarrow> string" where
  "json_int i = (if i < 0 then CHR ''-'' # digits (nat (- i)) else digits (nat i))"

fun join :: "string \<Rightarrow> string list \<Rightarrow> string" where
  "join sep [] = []"
| "join sep [x] = x"
| "join sep (x # y # r) = x @ sep @ join sep (y # r)"

fun dumps :: "json \<Rightarrow> string" where
  "dumps JNull = ''null''"
| "dumps (JBool b) = (if b then ''true'' else ''false'')"
| "dumps (JInt i) = json_int i"
| "dumps (JStr s) = json_string s"
| "dumps (JList vs) = ''['' @ join '', '' (map dumps vs) @ '']''"
| "dumps (JDict kvs) =
     ''{'' @ join '', '' (map (\<lambda>(k, t). json_string k @ '': '' @ t)
                          (sort_key fst (map (\<lambda>(k, v). (k, dumps v)) kvs))) @ ''}''"


section \<open>SHA-256\<close>

text \<open>
  \<^verbatim>\<open>hashlib.sha256(data).hexdigest()\<close>, after FIPS 180-4: 32-bit words, 64-byte blocks,
  64 rounds per block, the digest written as 64 lower-case hexadecimal digits.
\<close>

type_synonym w32 = "32 word"

definition Ch :: "w32 \<Rightarrow> w32 \<Rightarrow> w32 \<Rightarrow> w32" where
  "Ch x y z = (x AND y) XOR (NOT x AND z)"

definition Maj :: "w32 \<Rightarrow> w32 \<Rightarrow> w32 \<Rightarrow> w32" where
  "Maj x y z = (x AND y) XOR (x AND z) XOR (y AND z)"

definition big_sigma0 :: "w32 \<Rightarrow> w32" where
  "big_sigma0 x = word_rotr 2 x XOR word_rotr 13 x XOR word_rotr 22 x"

definition big_sigma1 :: "w32 \<Rightarrow> w32" where
  "big_sigma1 x = word_rotr 6 x XOR word_rotr 11 x XOR word_rotr 25 x"

definition small_sigma0 :: "w32 \<Rightarrow> w32" where
  "small_sigma0 x = word_rotr 7 x XOR word_rotr 18 x XOR drop_bit 3 x"

definition small_sigma1 :: "w32 \<Rightarrow> w32" where
  "small_sigma1 x = word_rotr 17 x XOR word_rotr 19 x XOR drop_bit 10 x"

text \<open>
  The round constants are the first 32 bits of the fractional parts of the cube roots of
  the first 64 primes, the initial hash those of the square roots of the first 8 primes;
  both are written in decimal.
\<close>

definition round_constants :: "w32 list" where
  "round_constants =
    [1116352408, 1899447441, 3049323471, 3921009573, 961987163, 1508970993, 2453635748, 2870763221,
     3624381080, 310598401, 607225278, 1426881987, 1925078388, 2162078206, 2614888103, 3248222580,
     3835390401, 4022224774, 264347078, 604807628, 770255983, 1249150122, 1555081692, 1996064986,
     2554220882, 2821834349, 2952996808, 3210313671, 3336571891, 3584528711, 113926993, 338241895,
     666307205, 773529912, 1294757372, 1396182291, 1695183700, 1986661051, 2177026350, 2456956037,
     2730485921, 2820302411, 3259730800, 3345764771, 3516065817, 3600352804, 4094571909, 275423344,
     430227734, 506948616, 659060556, 883997877, 958139571, 1322822218, 1537002063, 1747873779,
     1955562222, 2024104815, 2227730452, 2361852424, 2428436474, 2756734187, 3204031479, 3329325298]"

type_synonym sha_state = "w32 \<times> w32 \<times> w32 \<times> w32 \<times> w32 \<times> w32 \<times> w32 \<times> w32"

definition initial_hash :: sha_state where
  "initial_hash =
     (1779033703, 3144134277, 1013904242, 2773480762, 1359893119, 2600822924, 528734635, 1541459225)"

type_synonym byte = "8 word"

text \<open>Padding: one 0x80 byte, zero bytes up to 56 modulo 64, the bit length on 8 bytes.\<close>

definition length_bytes :: "nat \<Rightarrow> byte list" where
  "length_bytes n =
     map (\<lambda>i. ucast (drop_bit (8 * i) (word_of_nat n :: 64 word))) (rev [0..<8])"

definition pad :: "byte list \<Rightarrow> byte list" where
  "pad bs =
     bs @ [0x80] @ replicate ((119 - length bs mod 64) mod 64) 0 @ length_bytes (8 * length bs)"

fun be_words :: "byte list \<Rightarrow> w32 list" where
  "be_words (a # b # c # d # r) =
     (push_bit 24 (ucast a) OR push_bit 16 (ucast b) OR push_bit 8 (ucast c) OR ucast d)
       # be_words r"
| "be_words r = []"

text \<open>The message schedule, newest word first while it is built.\<close>

fun extend :: "nat \<Rightarrow> w32 list \<Rightarrow> w32 list" where
  "extend 0 ws = ws"
| "extend (Suc n) ws =
     extend n ((small_sigma1 (ws ! 1) + ws ! 6 + small_sigma0 (ws ! 14) + ws ! 15) # ws)"

definition schedule :: "w32 list \<Rightarrow> w32 list" where
  "schedule block = rev (extend 48 (rev block))"

definition sha_round :: "sha_state \<Rightarrow> w32 \<times> w32 \<Rightarrow> sha_state" where
  "sha_round st kw =
     (case st of (a, b, c, d, e, f, g, h) \<Rightarrow>
        let t1 = h + big_sigma1 e + Ch e f g + fst kw + snd kw;
            t2 = big_sigma0 a + Maj a b c
        in (t1 + t2, a, b, c, d + t1, e, f, g))"

definition compress :: "sha_state \<Rightarrow> w32 list \<Rightarrow> sha_state" where
  "compress st block =
     (case (st, foldl sha_round st (zip round_constants (schedule block))) of
        ((a, b, c, d, e, f, g, h), (a', b', c', d', e', f', g', h')) \<Rightarrow>
          (a + a', b + b', c + c', d + d', e + e', f + f', g + g', h + h'))"

fun blocks :: "nat \<Rightarrow> w32 list \<Rightarrow> w32 list list" where
  "blocks 0 ws = []"
| "blocks (Suc n) ws = take 16 ws # blocks n (drop 16 ws)"

definition sha256 :: "byte list \<Rightarrow> sha_state" where
  "sha256 bs =
     (let ws = be_words (pad bs)
      in foldl compress initial_hash (blocks (length ws div 16) ws))"

definition hex32 :: "w32 \<Rightarrow> string" where
  "hex32 w = map (\<lambda>i. hex_digit (unat (drop_bit (4 * i) w AND 0xF))) (rev [0..<8])"

definition hexdigest :: "sha_state \<Rightarrow> string" where
  "hexdigest st =
     (case st of (a, b, c, d, e, f, g, h) \<Rightarrow>
        hex32 a @ hex32 b @ hex32 c @ hex32 d @ hex32 e @ hex32 f @ hex32 g @ hex32 h)"

text \<open>\<^verbatim>\<open>str.encode()\<close>: UTF-8 of code points below 256.\<close>

definition encode :: "string \<Rightarrow> byte list" where
  "encode s =
     concat (map (\<lambda>c. let n = of_char c :: nat
                       in if n < 128 then [word_of_nat n]
                          else [word_of_nat (192 + n div 64), word_of_nat (128 + n mod 64)]) s)"


section \<open>QueryCache\<close>

text \<open>\<^verbatim>\<open>CacheConfig\<close> of \<^verbatim>\<open>config/settings.py\<close>, with its defaults.\<close>

record CacheConfig =
  enabled :: bool
  config_ttl :: int
  config_max_size :: int


record 'v QueryCache =
  qc_config :: CacheConfig
  qc_cache :: "'v LRUCache option"


text \<open>
  The dictionary \<^verbatim>\<open>{"query": query, **kwargs}\<close>: the keyword arguments are stored in
  call order after the query. (Python rejects a call whose keyword arguments repeat a name
  or use the name \<^verbatim>\<open>query\<close>.)
\<close>

definition key_data :: "string \<Rightarrow> (string \<times> json) list \<Rightarrow> (string, json) ordered_dict" where
  "key_data query kwargs =
     foldl (\<lambda>d (k, v). od_setitem d k v) [(''query'', JStr query)] kwargs"

definition key_string :: "string \<Rightarrow> (string \<times> json) list \<Rightarrow> string" where
  "key_string query kwargs = dumps (JDict (key_data query kwargs))"

definition generate_key :: "string \<Rightarrow> (string \<times> json) list \<Rightarrow> string" where
  "generate_key query kwargs = hexdigest (sha256 (encode (key_string query kwargs)))"


definition QueryCache_set ::
  "'v QueryCache \<Rightarrow> string \<Rightarrow> 'v \<Rightarrow> (string \<times> json) list \<Rightarrow> real \<Rightarrow> 'v QueryCache" where
  "QueryCache_set qc query result kwargs now =
     (if \<not> enabled (qc_config qc) then qc
      else case qc_cache qc of
        None \<Rightarrow> qc
      | Some c \<Rightarrow> qc\<lparr>qc_cache := Some (LRUCache_set c (generate_key query kwargs) result now)\<rparr>)"




section \<open>Facts about ordered dictionaries\<close>

lemma od_keys_delitem: "od_keys (od_delitem d k) = filter (\<lambda>x. x \<noteq> k) (od_keys d)"
  by (induction d) (auto simp: od_keys_def od_delitem_def)

lemma od_keys_setitem:
  "od_keys (od_setitem d k e) = (if k \<in> set (od_keys d) then od_keys d else od_keys d @ [k])"
  by (induction d) (auto simp: od_keys_def)

lemma od_keys_modify: "od_keys (od_modify d k f) = od_keys d"
  by (induction d) (auto simp: od_keys_def od_modify_def)

lemma od_keys_move_to_end:
  "k \<in> set (od_keys d) \<Longrightarrow> od_keys (od_move_to_end d k) = filter (\<lambda>x. x \<noteq> k) (od_keys d) @ [k]"
proof -
  assume "k \<in> set (od_keys d)"
  then obtain e where "map_of d k = Some e"
    by (metis od_keys_def map_of_eq_None_iff not_Some_eq set_map)
  then show ?thesis
    using od_keys_delitem [of d k] by (simp add: od_move_to_end_def od_keys_def)
qed

lemma od_getitem_Some_iff: "(\<exists>e. od_getitem d k = Some e) = od_contains d k"
  by (induction d) (auto simp: od_getitem_def od_contains_def od_keys_def)

lemma length_od_keys [simp]: "length (od_keys d) = length d"
  by (simp add: od_keys_def)

lemma od_delitem_absent: "\<not> od_contains d k \<Longrightarrow> od_delitem d k = d"
  by (induction d) (auto simp: od_contains_def od_keys_def od_delitem_def)

lemma od_setitem_absent: "\<not> od_contains d k \<Longrightarrow> od_setitem d k e = d @ [(k, e)]"
  by (induction d) (auto simp: od_contains_def od_keys_def)

lemma od_contains_delitem: "\<not> od_contains (od_delitem d k) k"
  by (simp add: od_contains_def od_keys_delitem)

lemma LRUCache_set_unfold:
  "LRUCache_set c k v now =
     (let d2 = od_delitem (cache c) k @ [(k, new_CacheEntry k v (ttl c) now)]
      in c\<lparr>cache := (if int (length d2) > max_size c then tl d2 else d2)\<rparr>)"
proof (cases "od_contains (cache c) k")
  case True
  then show ?thesis
    by (simp add: LRUCache_set_def Let_def od_setitem_absent [OF od_contains_delitem]
        od_popitem_first_def split: list.splits)
next
  case False
  then show ?thesis
    by (simp add: LRUCache_set_def Let_def od_setitem_absent od_delitem_absent
        od_popitem_first_def split: list.splits)
qed

lemma keys_set:
  "stored_keys (LRUCache_set c k v now) =
     (let ks = filter (\<lambda>x. x \<noteq> k) (stored_keys c) @ [k]
      in if int (length ks) > max_size c then tl ks else ks)"
proof -
  have len: "length (od_delitem (cache c) k) = length (filter (\<lambda>x. x \<noteq> k) (od_keys (cache c)))"
    using od_keys_delitem [of "cache c" k] by (metis length_od_keys)
  have app: "od_keys (d @ [(k, e)]) = od_keys d @ [k]" for d :: "(string, 'a CacheEntry) ordered_dict" and e
    by (simp add: od_keys_def)
  have tl: "od_keys (tl d) = tl (od_keys d)" for d :: "(string, 'a CacheEntry) ordered_dict"
    by (simp add: od_keys_def map_tl)
  show ?thesis
    by (simp add: LRUCache_set_unfold stored_keys_def Let_def len app tl od_keys_delitem)
qed

lemma max_size_set [simp]: "max_size (LRUCache_set c k v now) = max_size c"
  by (simp add: LRUCache_set_unfold Let_def)

lemma keys_get:
  "stored_keys (snd (LRUCache_get c k now now')) =
     (case od_getitem (cache c) k of None \<Rightarrow> stored_keys c
      | Some e \<Rightarrow> if is_expired e now then filter (\<lambda>x. x \<noteq> k) (stored_keys c)
                  else filter (\<lambda>x. x \<noteq> k) (stored_keys c) @ [k])"
  using od_getitem_Some_iff [of "cache c" k]
  by (auto simp: LRUCache_get_def stored_keys_def od_keys_modify od_keys_move_to_end od_keys_delitem
       od_contains_def split: option.splits)

lemma max_size_get [simp]: "max_size (snd (LRUCache_get c k now now')) = max_size c"
  by (auto simp: LRUCache_get_def split: option.splits)

lemma keys_delete:
  "stored_keys (snd (LRUCache_delete c k)) = filter (\<lambda>x. x \<noteq> k) (stored_keys c)"
proof (cases "od_contains (cache c) k")
  case True
  then show ?thesis by (simp add: LRUCache_delete_def stored_keys_def od_keys_delitem)
next
  case False
  then have "od_delitem (cache c) k = cache c" by (rule od_delitem_absent)
  then have "filter (\<lambda>x. x \<noteq> k) (od_keys (cache c)) = od_keys (cache c)"
    using od_keys_delitem [of "cache c" k] by simp
  with False show ?thesis by (simp add: LRUCache_delete_def stored_keys_def)
qed

lemma max_size_delete [simp]: "max_size (snd (LRUCache_delete c k)) = max_size c"
  by (auto simp: LRUCache_delete_def)

lemma len_keys: "LRUCache_len c = int (length (stored_keys c))"
  by (simp add: LRUCache_len_def stored_keys_def)

lemma filter_absent: "k \<notin> set ks \<Longrightarrow> filter (\<lambda>x. x \<noteq> k) ks = ks"
  by (induction ks) auto

lemma length_filter_distinct:
  "distinct ks \<Longrightarrow> k \<in> set ks \<Longrightarrow> Suc (length (filter (\<lambda>x. x \<noteq> k) ks)) = length ks"
  by (induction ks) (auto simp: filter_absent)

lemma filter_within_bound:
  "int (length ks) \<le> m \<Longrightarrow> int (length (filter (\<lambda>x. x \<noteq> k) ks)) \<le> m"
  by (rule order_trans [of _ "int (length ks)"]) simp_all

lemma inv_set: 
  assumes "0 \<le> max_size c" "cache_inv c" shows "cache_inv (LRUCache_set c k v now)"
proof -
  let ?ks = "filter (\<lambda>x. x \<noteq> k) (stored_keys c) @ [k]"
  have d: "distinct ?ks" using assms by (simp add: cache_inv_def)
  have l: "int (length (filter (\<lambda>x. x \<noteq> k) (stored_keys c))) \<le> max_size c"
    using assms by (simp add: cache_inv_def len_keys filter_within_bound)
  show ?thesis using d l assms
    by (auto simp: cache_inv_def keys_set len_keys Let_def distinct_tl)
qed

lemma inv_get: 
  assumes "cache_inv c" shows "cache_inv (snd (LRUCache_get c k now now'))"
proof -
  have l: "int (length (filter (\<lambda>x. x \<noteq> k) (stored_keys c))) \<le> max_size c"
    using assms by (simp add: cache_inv_def len_keys filter_within_bound)
  have "od_getitem (cache c) k = Some e \<Longrightarrow> k \<in> set (stored_keys c)" for e
    using od_getitem_Some_iff [of "cache c" k] by (auto simp: od_contains_def stored_keys_def)
  then show ?thesis
    using assms l length_filter_distinct [of "stored_keys c" k]
    by (auto simp: cache_inv_def keys_get len_keys split: option.splits)
qed

lemma inv_delete: 
  assumes "cache_inv c" shows "cache_inv (snd (LRUCache_delete c k))"
proof -
  have l: "int (length (filter (\<lambda>x. x \<noteq> k) (stored_keys c))) \<le> max_size c"
    using assms by (simp add: cache_inv_def len_keys filter_within_bound)
  show ?thesis using assms l by (auto simp: cache_inv_def keys_delete len_keys)
qed

lemma inv_clear: "0 \<le> max_size c \<Longrightarrow> cache_inv (LRUCache_clear c)"
  by (simp add: cache_inv_def LRUCache_clear_def stored_keys_def od_keys_def LRUCache_len_def)

lemma inv_init: "0 \<le> m \<Longrightarrow> cache_inv (LRUCache_init m t)"
  by (simp add: cache_inv_def LRUCache_init_def stored_keys_def od_keys_def LRUCache_len_def)

lemma max_size_do_call [simp]: "max_size (do_call c x) = max_size c"
  by (cases x) (simp_all add: LRUCache_clear_def)

lemma inv_do_call: "0 \<le> max_size c \<Longrightarrow> cache_inv c \<Longrightarrow> cache_inv (do_call c x)"
  by (cases x) (simp_all add: inv_set inv_get inv_delete inv_clear)

lemma inv_run_calls:
  "0 \<le> max_size c \<Longrightarrow> cache_inv c \<Longrightarrow> cache_inv (run_calls c xs) \<and> max_size (run_calls c xs) = max_size c"
  unfolding run_calls_def
  by (induction xs arbitrary: c) (simp_all add: inv_do_call)

lemma od_getitem_delitem_other: "k' \<noteq> k \<Longrightarrow> od_getitem (od_delitem d k) k' = od_getitem d k'"
  by (induction d) (auto simp: od_getitem_def od_delitem_def)

lemma od_getitem_modify_other: "k' \<noteq> k \<Longrightarrow> od_getitem (od_modify d k f) k' = od_getitem d k'"
  by (induction d) (auto simp: od_getitem_def od_modify_def)

lemma od_getitem_move_to_end_other:
  "k' \<noteq> k \<Longrightarrow> od_getitem (od_move_to_end d k) k' = od_getitem d k'"
  using od_getitem_delitem_other [of k' k d]
  by (auto simp: od_move_to_end_def od_getitem_def map_add_def split: option.splits)

text \<open>The definitions to unfold when a call is evaluated on a concrete cache.\<close>

lemmas lru_eval = LRUCache_set_def LRUCache_get_def LRUCache_delete_def LRUCache_init_def
  LRUCache_contains_def LRUCache_len_def stored_keys_def od_keys_def od_contains_def
  od_getitem_def od_delitem_def od_move_to_end_def od_popitem_first_def od_modify_def
  new_CacheEntry_def is_expired_def Let_def


section \<open>Properties of LRUCache\<close>

text \<open>
  C1. Take a cache created with \<open>max_size \<ge> 1\<close> and any history of calls on it (in
  particular any sequence of \<^verbatim>\<open>set\<close> calls). Before and after one more \<^verbatim>\<open>set\<close> the
  number of stored entries is at most \<open>max_size\<close>. The keys that this \<^verbatim>\<open>set\<close> drops are
  exactly the head of the order (the least recently used key) when the key is new and the
  cache is full, and none otherwise: at most one entry is evicted.
\<close>

theorem set_capacity_bound:
  assumes "1 \<le> m"
    and "c = run_calls (LRUCache_init m t) history"
    and "c' = LRUCache_set c k v now"
  shows "LRUCache_len c \<le> m \<and> LRUCache_len c' \<le> m
       \<and> set (stored_keys c) - set (stored_keys c') =
           (if \<not> LRUCache_contains c k \<and> LRUCache_len c = m then {hd (stored_keys c)} else {})
       \<and> card (set (stored_keys c) - set (stored_keys c')) \<le> 1"
proof -
  let ?ks = "stored_keys c"
  have "cache_inv c \<and> max_size c = m"
    unfolding assms(2)
    using inv_run_calls [of "LRUCache_init m t" history] inv_init [of m t] assms(1)
    by (simp add: LRUCache_init_def)
  then have inv: "cache_inv c" and m: "max_size c = m"
    by simp_all
  have dist: "distinct ?ks" and len: "int (length ?ks) \<le> m"
    using inv m by (simp_all add: cache_inv_def len_keys)
  have "cache_inv c'"
    unfolding assms(3) using inv m assms(1) by (intro inv_set) simp_all
  then have len': "LRUCache_len c' \<le> m"
    using m by (simp add: cache_inv_def assms(3))
  have diff: "set ?ks - set (stored_keys c') =
      (if \<not> LRUCache_contains c k \<and> LRUCache_len c = m then {hd ?ks} else {})"
  proof (cases "k \<in> set ?ks")
    case True
    then have "int (length (filter (\<lambda>x. x \<noteq> k) ?ks @ [k])) \<le> m"
      using length_filter_distinct [OF dist True] len by simp
    then have "stored_keys c' = filter (\<lambda>x. x \<noteq> k) ?ks @ [k]"
      by (simp add: assms(3) keys_set m Let_def)
    with True show ?thesis
      by (auto simp: LRUCache_contains_def od_contains_def stored_keys_def)
  next
    case False
    then have same: "filter (\<lambda>x. x \<noteq> k) ?ks = ?ks" by (rule filter_absent)
    show ?thesis
    proof (cases "int (length ?ks) = m")
      case True
      with assms(1) obtain x r where ks: "?ks = x # r" by (cases ?ks) auto
      have "stored_keys c' = r @ [k]"
        using True by (simp add: assms(3) keys_set m Let_def same) (simp add: ks)
      moreover have "x \<notin> set r" "x \<noteq> k" using dist False by (auto simp: ks)
      ultimately show ?thesis
        using True False
        by (auto simp: ks LRUCache_contains_def od_contains_def stored_keys_def [symmetric] len_keys)
    next
      case False
      with len have "stored_keys c' = ?ks @ [k]"
        by (simp add: assms(3) keys_set m Let_def same)
      with False show ?thesis
        by (auto simp: len_keys)
    qed
  qed
  have "card (set ?ks - set (stored_keys c')) \<le> 1"
    unfolding diff by simp
  with len len' diff show ?thesis by (simp add: len_keys)
qed

theorem set_capacity_bound_witness:
  "(1::int) \<le> 2
   \<and> LRUCache_len (run_calls (LRUCache_init 2 60) [Set ''a'' (1::int) 0, Set ''b'' 2 1]) \<le> 2
   \<and> LRUCache_len (LRUCache_set (run_calls (LRUCache_init 2 60) [Set ''a'' (1::int) 0, Set ''b'' 2 1]) ''c'' 3 2) \<le> 2
   \<and> stored_keys (run_calls (LRUCache_init 2 60) [Set ''a'' (1::int) 0, Set ''b'' 2 1]) = [''a'', ''b'']
   \<and> stored_keys (LRUCache_set (run_calls (LRUCache_init 2 60) [Set ''a'' (1::int) 0, Set ''b'' 2 1]) ''c'' 3 2) = [''b'', ''c'']"
proof -
  have h: "(1::int) \<le> 2" by simp
  have ks: "stored_keys (run_calls (LRUCache_init 2 60) [Set ''a'' (1::int) 0, Set ''b'' 2 1]) = [''a'', ''b'']"
    by (simp add: run_calls_def LRUCache_set_def LRUCache_init_def stored_keys_def od_keys_def
       od_contains_def od_delitem_def od_popitem_first_def new_CacheEntry_def Let_def)
  have ks': "stored_keys (LRUCache_set (run_calls (LRUCache_init 2 60) [Set ''a'' (1::int) 0, Set ''b'' 2 1]) ''c'' 3 2) = [''b'', ''c'']"
    by (simp add: run_calls_def LRUCache_set_def LRUCache_init_def stored_keys_def od_keys_def
       od_contains_def od_delitem_def od_popitem_first_def new_CacheEntry_def Let_def)
  show ?thesis
    using set_capacity_bound [OF h refl refl, where t = 60
        and history = "[Set ''a'' (1::int) 0, Set ''b'' 2 1]" and k = "''c''" and v = 3 and now = 2]
      ks ks' by simp
qed

text \<open>
  C2. With \<open>max_size \<ge> 1\<close>, \<^verbatim>\<open>set\<close> leaves its key stored in the last (most recently
  used) position, the other keys keeping their relative order, possibly without their
  head. A \<^verbatim>\<open>get\<close> that returns a value moves its key to the last position and keeps the
  order of the others. With \<open>max_size = 2\<close>, after \<^verbatim>\<open>set(a,1); set(b,2); get(a); set(c,3)\<close>,
  where \<open>a\<close> has not expired at the \<^verbatim>\<open>get\<close>, the stored keys are \<open>a\<close> and
  \<open>c\<close>, and \<open>b\<close> is gone.
\<close>

theorem recency_order:
  "(1 \<le> max_size c \<longrightarrow>
      last (stored_keys (LRUCache_set c k v now)) = k
      \<and> LRUCache_contains (LRUCache_set c k v now) k
      \<and> butlast (stored_keys (LRUCache_set c k v now))
            \<in> {filter (\<lambda>x. x \<noteq> k) (stored_keys c), tl (filter (\<lambda>x. x \<noteq> k) (stored_keys c))})
   \<and> (fst (LRUCache_get c k now now') = Some v \<longrightarrow>
      stored_keys (snd (LRUCache_get c k now now')) = filter (\<lambda>x. x \<noteq> k) (stored_keys c) @ [k])
   \<and> (ka \<noteq> kb \<and> kb \<noteq> kc \<and> ka \<noteq> kc \<and> t3 - t1 \<le> real_of_int tt \<longrightarrow>
      (let c1 = LRUCache_set (LRUCache_init 2 tt) ka v1 t1;
           c2 = LRUCache_set c1 kb v2 t2;
           g = LRUCache_get c2 ka t3 t3';
           c4 = LRUCache_set (snd g) kc v3 t4
       in fst g = Some v1 \<and> stored_keys c4 = [ka, kc] \<and> \<not> LRUCache_contains c4 kb
          \<and> LRUCache_contains c4 ka \<and> LRUCache_contains c4 kc))"
proof (intro conjI impI)
  let ?f = "filter (\<lambda>x. x \<noteq> k) (stored_keys c)"
  assume m: "1 \<le> max_size c"
  have ks: "stored_keys (LRUCache_set c k v now) =
      (if int (length (?f @ [k])) > max_size c then tl (?f @ [k]) else ?f @ [k])"
    by (simp add: keys_set Let_def)
  show "last (stored_keys (LRUCache_set c k v now)) = k"
    using m by (cases ?f) (auto simp: ks)
  show "LRUCache_contains (LRUCache_set c k v now) k"
    using m by (cases ?f) (auto simp: ks LRUCache_contains_def od_contains_def stored_keys_def [symmetric])
  show "butlast (stored_keys (LRUCache_set c k v now)) \<in> {?f, tl ?f}"
    using m by (cases ?f) (auto simp: ks)
next
  assume "fst (LRUCache_get c k now now') = Some v"
  then obtain e where "od_getitem (cache c) k = Some e" "\<not> is_expired e now"
    by (auto simp: LRUCache_get_def split: if_splits option.splits)
  then show "stored_keys (snd (LRUCache_get c k now now')) = filter (\<lambda>x. x \<noteq> k) (stored_keys c) @ [k]"
    by (simp add: keys_get)
next
  assume a: "ka \<noteq> kb \<and> kb \<noteq> kc \<and> ka \<noteq> kc \<and> t3 - t1 \<le> real_of_int tt"
  then have ne: "ka \<noteq> kb" "kb \<noteq> ka" "kb \<noteq> kc" "kc \<noteq> kb" "ka \<noteq> kc" "kc \<noteq> ka"
    and fresh: "t3 - t1 \<le> real_of_int tt" by auto
  let ?c0 = "LRUCache_init 2 tt :: 'b LRUCache"
  let ?e1 = "new_CacheEntry ka v1 tt t1"
  let ?e2 = "new_CacheEntry kb v2 tt t2"
  let ?e3 = "new_CacheEntry kc v3 tt t4"
  let ?e1' = "?e1\<lparr>accessed_at := t3', access_count := 1\<rparr>"
  have c1: "LRUCache_set ?c0 ka v1 t1 = ?c0\<lparr>cache := [(ka, ?e1)]\<rparr>"
    by (simp add: LRUCache_set_def LRUCache_init_def od_contains_def od_keys_def Let_def)
  have c2: "LRUCache_set (?c0\<lparr>cache := [(ka, ?e1)]\<rparr>) kb v2 t2 = ?c0\<lparr>cache := [(ka, ?e1), (kb, ?e2)]\<rparr>"
    using ne fresh by (simp add: LRUCache_set_def LRUCache_init_def od_contains_def od_keys_def Let_def)
  have g: "LRUCache_get (?c0\<lparr>cache := [(ka, ?e1), (kb, ?e2)]\<rparr>) ka t3 t3' =
      (Some v1, ?c0\<lparr>cache := [(kb, ?e2), (ka, ?e1')], hits := 1\<rparr>)"
    using ne fresh by (simp add: LRUCache_get_def LRUCache_init_def od_contains_def od_keys_def
        od_getitem_def od_move_to_end_def od_delitem_def od_modify_def is_expired_def
        new_CacheEntry_def)
  have c4: "LRUCache_set (?c0\<lparr>cache := [(kb, ?e2), (ka, ?e1')], hits := 1\<rparr>) kc v3 t4 =
      ?c0\<lparr>cache := [(ka, ?e1'), (kc, ?e3)], hits := 1\<rparr>"
    using ne fresh by (simp add: LRUCache_set_def LRUCache_init_def od_contains_def od_keys_def
        od_popitem_first_def Let_def)
  show "let c1 = LRUCache_set (LRUCache_init 2 tt) ka v1 t1;
           c2 = LRUCache_set c1 kb v2 t2;
           g = LRUCache_get c2 ka t3 t3';
           c4 = LRUCache_set (snd g) kc v3 t4
       in fst g = Some v1 \<and> stored_keys c4 = [ka, kc] \<and> \<not> LRUCache_contains c4 kb
          \<and> LRUCache_contains c4 ka \<and> LRUCache_contains c4 kc"
    unfolding Let_def c1 c2 g fst_conv snd_conv c4
    using ne fresh by (simp add: stored_keys_def LRUCache_contains_def od_contains_def od_keys_def)
qed

theorem recency_order_witness:
  "1 \<le> max_size (LRUCache_set (LRUCache_init 2 60) ''a'' (1::int) 0)
   \<and> fst (LRUCache_get (LRUCache_set (LRUCache_init 2 60) ''a'' (1::int) 0) ''a'' 5 5) = Some 1
   \<and> (''a'' \<noteq> ''b'' \<and> ''b'' \<noteq> ''c'' \<and> ''a'' \<noteq> ''c'' \<and> (5::real) - 0 \<le> real_of_int 60)
   \<and> last (stored_keys (LRUCache_set (LRUCache_set (LRUCache_init 2 60) ''a'' (1::int) 0) ''a'' 1 5)) = ''a''
   \<and> stored_keys (snd (LRUCache_get (LRUCache_set (LRUCache_init 2 60) ''a'' (1::int) 0) ''a'' 5 5)) = [''a'']
   \<and> (let c1 = LRUCache_set (LRUCache_init 2 60) ''a'' (1::int) 0;
           c2 = LRUCache_set c1 ''b'' 2 1;
           g = LRUCache_get c2 ''a'' 5 5;
           c4 = LRUCache_set (snd g) ''c'' 3 7
       in fst g = Some 1 \<and> stored_keys c4 = [''a'', ''c''] \<and> \<not> LRUCache_contains c4 ''b''
          \<and> LRUCache_contains c4 ''a'' \<and> LRUCache_contains c4 ''c'')"
proof -
  let ?c = "LRUCache_set (LRUCache_init 2 60) ''a'' (1::int) 0"
  have h1: "1 \<le> max_size ?c" by (simp add: lru_eval)
  have h2: "fst (LRUCache_get ?c ''a'' 5 5) = Some 1"
    by (simp add: lru_eval)
  have h3: "''a'' \<noteq> ''b'' \<and> ''b'' \<noteq> ''c'' \<and> ''a'' \<noteq> ''c'' \<and> (5::real) - 0 \<le> real_of_int 60"
    by simp
  note r = recency_order [where c = ?c and k = "''a''" and v = 1 and now = 5 and now' = 5
      and ka = "''a''" and kb = "''b''" and kc = "''c''" and ?t1.0 = 0 and ?t2.0 = 1 and ?t3.0 = 5
      and t3' = 5 and ?t4.0 = 7 and tt = 60 and ?v1.0 = "1::int" and ?v2.0 = 2 and ?v3.0 = 3]
  have a: "last (stored_keys (LRUCache_set ?c ''a'' 1 5)) = ''a''"
    using r h1 by blast
  have b: "stored_keys (snd (LRUCache_get ?c ''a'' 5 5)) = filter (\<lambda>x. x \<noteq> ''a'') (stored_keys ?c) @ [''a'']"
    using r h2 by blast
  have b': "stored_keys (snd (LRUCache_get ?c ''a'' 5 5)) = [''a'']"
    unfolding b by (simp add: lru_eval)
  have s: "let c1 = LRUCache_set (LRUCache_init 2 60) ''a'' (1::int) 0;
           c2 = LRUCache_set c1 ''b'' 2 1;
           g = LRUCache_get c2 ''a'' 5 5;
           c4 = LRUCache_set (snd g) ''c'' 3 7
       in fst g = Some 1 \<and> stored_keys c4 = [''a'', ''c''] \<and> \<not> LRUCache_contains c4 ''b''
          \<and> LRUCache_contains c4 ''a'' \<and> LRUCache_contains c4 ''c''"
    using r h3 by blast
  show ?thesis using h1 h2 h3 a b' s by blast
qed

text \<open>
  C6. A \<^verbatim>\<open>get\<close> on a key whose stored entry is expired returns nothing, removes that
  entry and no other, and adds one to the misses, leaving the hits. Whenever \<^verbatim>\<open>get\<close>
  returns a value, it is the value of a stored entry that is not expired. A \<^verbatim>\<open>get\<close> on
  one key never changes what is stored under another key, expired or not: nothing is
  swept.
\<close>

theorem get_expired_entry:
  "(od_getitem (cache c) k = Some e \<and> is_expired e now \<longrightarrow>
      fst (LRUCache_get c k now now') = None
      \<and> cache (snd (LRUCache_get c k now now')) = filter (\<lambda>p. fst p \<noteq> k) (cache c)
      \<and> \<not> LRUCache_contains (snd (LRUCache_get c k now now')) k
      \<and> misses (snd (LRUCache_get c k now now')) = misses c + 1
      \<and> hits (snd (LRUCache_get c k now now')) = hits c)
   \<and> (fst (LRUCache_get c k now now') = Some v \<longrightarrow>
        (\<exists>e. od_getitem (cache c) k = Some e \<and> \<not> is_expired e now \<and> entry_value e = v))
   \<and> (k' \<noteq> k \<longrightarrow>
        od_getitem (cache (snd (LRUCache_get c k now now'))) k' = od_getitem (cache c) k')"
proof (intro conjI impI)
  assume "od_getitem (cache c) k = Some e \<and> is_expired e now"
  then have e: "od_getitem (cache c) k = Some e" and x: "is_expired e now" by simp_all
  from e have p: "od_contains (cache c) k"
    using od_getitem_Some_iff [of "cache c" k] by auto
  have g: "LRUCache_get c k now now' = (None, c\<lparr>cache := od_delitem (cache c) k, misses := misses c + 1\<rparr>)"
    using e x p by (simp add: LRUCache_get_def)
  show "fst (LRUCache_get c k now now') = None" by (simp add: g)
  show "cache (snd (LRUCache_get c k now now')) = filter (\<lambda>p. fst p \<noteq> k) (cache c)"
    by (simp add: g od_delitem_def)
  show "\<not> LRUCache_contains (snd (LRUCache_get c k now now')) k"
    by (simp add: g LRUCache_contains_def od_contains_delitem)
  show "misses (snd (LRUCache_get c k now now')) = misses c + 1" by (simp add: g)
  show "hits (snd (LRUCache_get c k now now')) = hits c" by (simp add: g)
next
  assume "fst (LRUCache_get c k now now') = Some v"
  then show "\<exists>e. od_getitem (cache c) k = Some e \<and> \<not> is_expired e now \<and> entry_value e = v"
    by (auto simp: LRUCache_get_def split: if_splits option.splits)
next
  assume "k' \<noteq> k"
  then show "od_getitem (cache (snd (LRUCache_get c k now now'))) k' = od_getitem (cache c) k'"
    by (auto simp: LRUCache_get_def od_getitem_delitem_other od_getitem_modify_other
        od_getitem_move_to_end_other split: option.splits)
qed

theorem get_expired_entry_witness:
  "od_getitem (cache (LRUCache_set (LRUCache_init 2 10) ''a'' (1::int) 0)) ''a''
       = Some (new_CacheEntry ''a'' 1 10 0)
   \<and> is_expired (new_CacheEntry ''a'' (1::int) 10 0) 11
   \<and> fst (LRUCache_get (LRUCache_set (LRUCache_init 2 10) ''a'' (1::int) 0) ''a'' 11 11) = None
   \<and> cache (snd (LRUCache_get (LRUCache_set (LRUCache_init 2 10) ''a'' (1::int) 0) ''a'' 11 11)) = []
   \<and> misses (snd (LRUCache_get (LRUCache_set (LRUCache_init 2 10) ''a'' (1::int) 0) ''a'' 11 11)) = 1"
proof -
  let ?c = "LRUCache_set (LRUCache_init 2 10) ''a'' (1::int) 0"
  let ?e = "new_CacheEntry ''a'' (1::int) 10 0"
  have h: "od_getitem (cache ?c) ''a'' = Some ?e \<and> is_expired ?e 11"
    by (simp add: lru_eval)
  note r = get_expired_entry [where c = ?c and k = "''a''" and e = ?e and now = 11 and now' = 11
      and v = 1 and k' = "''b''"]
  have "fst (LRUCache_get ?c ''a'' 11 11) = None
      \<and> cache (snd (LRUCache_get ?c ''a'' 11 11)) = filter (\<lambda>p. fst p \<noteq> ''a'') (cache ?c)
      \<and> misses (snd (LRUCache_get ?c ''a'' 11 11)) = misses ?c + 1"
    using r h by blast
  moreover have "filter (\<lambda>p. fst p \<noteq> ''a'') (cache ?c) = []" "misses ?c = 0"
    by (simp_all add: lru_eval)
  ultimately show ?thesis using h by simp
qed

text \<open>
  C10. Membership is a test on the stored keys alone. For a stored entry that is expired
  and has not been removed, membership is true, \<^verbatim>\<open>get\<close> returns nothing, and
  \<^verbatim>\<open>delete\<close> returns true.
\<close>

theorem contains_ignores_ttl:
  "LRUCache_contains c k = (k \<in> set (stored_keys c))
   \<and> (od_getitem (cache c) k = Some e \<and> is_expired e now \<longrightarrow>
        LRUCache_contains c k
        \<and> fst (LRUCache_get c k now now') = None
        \<and> fst (LRUCache_delete c k) = True)"
proof (intro conjI impI)
  show "LRUCache_contains c k = (k \<in> set (stored_keys c))"
    by (simp add: LRUCache_contains_def od_contains_def stored_keys_def)
next
  assume "od_getitem (cache c) k = Some e \<and> is_expired e now"
  then have e: "od_getitem (cache c) k = Some e" and x: "is_expired e now" by simp_all
  from e have p: "od_contains (cache c) k"
    using od_getitem_Some_iff [of "cache c" k] by auto
  show "LRUCache_contains c k" using p by (simp add: LRUCache_contains_def)
  show "fst (LRUCache_get c k now now') = None" using e x p by (simp add: LRUCache_get_def)
  show "fst (LRUCache_delete c k) = True" using p by (simp add: LRUCache_delete_def)
qed

theorem contains_ignores_ttl_witness:
  "od_getitem (cache (LRUCache_set (LRUCache_init 2 10) ''a'' (1::int) 0)) ''a''
       = Some (new_CacheEntry ''a'' 1 10 0)
   \<and> is_expired (new_CacheEntry ''a'' (1::int) 10 0) 11
   \<and> LRUCache_contains (LRUCache_set (LRUCache_init 2 10) ''a'' (1::int) 0) ''a''
   \<and> fst (LRUCache_get (LRUCache_set (LRUCache_init 2 10) ''a'' (1::int) 0) ''a'' 11 11) = None
   \<and> fst (LRUCache_delete (LRUCache_set (LRUCache_init 2 10) ''a'' (1::int) 0) ''a'') = True"
proof -
  let ?c = "LRUCache_set (LRUCache_init 2 10) ''a'' (1::int) 0"
  let ?e = "new_CacheEntry ''a'' (1::int) 10 0"
  have h: "od_getitem (cache ?c) ''a'' = Some ?e \<and> is_expired ?e 11"
    by (simp add: lru_eval)
  show ?thesis
    using contains_ignores_ttl [where c = ?c and k = "''a''" and e = ?e and now = 11 and now' = 11] h
    by blast
qed

section \<open>Properties of the retry wrapper\<close>













text \<open>
  C8. With \<open>max_retries \<ge> 0\<close>, when the operation raises an exception outside the
  retryable set, the wrapper raises that exception after this single invocation: nothing
  has been slept and the callback has not run.
\<close>

theorem non_retryable_short_circuit:
  assumes "0 \<le> max_retries cfg"
    and "fst (func s) = Inl e"
    and "\<not> exceptions cfg e"
  shows "retry_with_exponential_backoff cfg func (fresh_world s) =
           (Inl e, \<lparr>op_state = snd (func s), invoked = [Inl e], slept = []\<rparr>)"
proof -
  have "[0..<nat (max_retries cfg + 1)] = 0 # [Suc 0..<nat (max_retries cfg + 1)]"
    by (rule upt_conv_Cons) (use assms(1) in simp)
  moreover have "invoke func (fresh_world s) =
      (Inl e, \<lparr>op_state = snd (func s), invoked = [Inl e], slept = []\<rparr>)"
    using assms(2) by (cases "func s") (simp add: invoke_def fresh_world_def)
  ultimately show ?thesis
    unfolding retry_with_exponential_backoff_def using assms(3) by simp
qed

theorem non_retryable_short_circuit_witness:
  "0 \<le> max_retries example_policy
   \<and> fst (rejecting_input 0) = Inl (PyException ''ValueError'' [Text ''bad input''])
   \<and> \<not> exceptions example_policy (PyException ''ValueError'' [Text ''bad input''])
   \<and> retry_with_exponential_backoff example_policy rejecting_input (fresh_world 0) =
        (Inl (PyException ''ValueError'' [Text ''bad input'']),
         \<lparr>op_state = 1, invoked = [Inl (PyException ''ValueError'' [Text ''bad input''])], slept = []\<rparr>)"
proof -
  let ?e = "PyException ''ValueError'' [Text ''bad input'']"
  have h1: "0 \<le> max_retries example_policy" by (simp add: example_policy_def)
  have h2: "fst (rejecting_input 0) = Inl ?e" by (simp add: rejecting_input_def)
  have h3: "\<not> exceptions example_policy ?e" by (simp add: example_policy_def)
  have "snd (rejecting_input 0) = 1" by (simp add: rejecting_input_def)
  then show ?thesis
    using non_retryable_short_circuit [where func = rejecting_input and s = 0, OF h1 h2 h3] h1 h2 h3 by simp
qed

section \<open>Properties of the circuit breaker\<close>

lemmas breaker_eval = CircuitBreaker_call_def call_gate_def should_attempt_reset_def
  on_success_def on_failure_def circuit_open_exception_def CircuitBreaker_init_def
  CircuitBreaker_reset_def run_breaker_def invoke_def fresh_world_def tripped_breaker_def
  succeeding_def impostor_def timing_out_def timeout_error_def Let_def

lemma threshold_call [simp]:
  "failure_threshold (fst (snd (CircuitBreaker_call cb func w now now'))) = failure_threshold cb"
  by (auto simp: CircuitBreaker_call_def call_gate_def on_success_def on_failure_def Let_def
      split: sum.splits prod.splits)

lemma inv_call: "breaker_inv cb \<Longrightarrow> breaker_inv (fst (snd (CircuitBreaker_call cb func w now now')))"
  by (auto simp: breaker_inv_def CircuitBreaker_call_def call_gate_def on_success_def
      on_failure_def Let_def split: sum.splits prod.splits if_splits)

lemma inv_step: "breaker_inv cb \<Longrightarrow> breaker_inv (breaker_step cb ev)"
  by (cases ev) (simp_all add: inv_call, simp add: breaker_inv_def CircuitBreaker_reset_def)

lemma inv_run: "breaker_inv cb \<Longrightarrow> breaker_inv (run_breaker cb evs)"
  unfolding run_breaker_def by (induction evs arbitrary: cb) (simp_all add: inv_step)

lemma inv_breaker_init: "breaker_inv (CircuitBreaker_init threshold timeout expected)"
  by (simp add: breaker_inv_def CircuitBreaker_init_def)

lemma tripped: "tripped_breaker =
  \<lparr>failure_threshold = 1, recovery_timeout = 60, expected_exceptions = (\<lambda>e. True),
   failure_count = 1, last_failure_time = Some 0, state = ''open''\<rparr>"
  by (simp add: breaker_eval)

text \<open>
  C4. Take a breaker reached from \<^verbatim>\<open>__init__\<close> by calls and resets that is open, with
  \<open>now - last_failure_time \<ge> recovery_timeout\<close>. The next call first sets the state to
  half\_open and then invokes the operation. If the operation returns, the breaker ends
  closed with \<open>failure_count = 0\<close>. If it raises a guarded exception, the breaker ends
  open again, with one more failure counted at the time of the failure. An exception
  that is not guarded leaves the breaker half open.
\<close>

theorem half_open_recovery:
  assumes "cb = run_breaker (CircuitBreaker_init threshold timeout expected) events"
    and "state cb = ''open''"
    and "last_failure_time cb = Some t"
    and "now - t \<ge> recovery_timeout cb"
    and "CircuitBreaker_call cb func w now now' = (outcome, cb', w')"
  shows "call_gate cb now = Inr (cb\<lparr>state := ''half_open''\<rparr>)
     \<and> invoked w' = invoked w @ [outcome]
     \<and> (\<forall>r. outcome = Inr r \<longrightarrow> state cb' = ''closed'' \<and> failure_count cb' = 0)
     \<and> (\<forall>e. outcome = Inl e \<and> expected_exceptions cb e \<longrightarrow>
            state cb' = ''open'' \<and> failure_count cb' = failure_count cb + 1
            \<and> last_failure_time cb' = Some now')
     \<and> (\<forall>e. outcome = Inl e \<and> \<not> expected_exceptions cb e \<longrightarrow> cb' = cb\<lparr>state := ''half_open''\<rparr>)"
proof -
  have inv: "breaker_inv cb"
    unfolding assms(1) by (intro inv_run inv_breaker_init)
  then have cnt: "failure_threshold cb \<le> failure_count cb"
    using assms(2) by (simp add: breaker_inv_def)
  have gate: "call_gate cb now = Inr (cb\<lparr>state := ''half_open''\<rparr>)"
    using assms(2,3,4) by (simp add: call_gate_def should_attempt_reset_def)
  obtain r s' where f: "func (op_state w) = (r, s')" by (cases "func (op_state w)")
  then have i: "invoke func w = (r, w\<lparr>op_state := s', invoked := invoked w @ [r]\<rparr>)"
    by (simp add: invoke_def)
  show ?thesis
  proof (cases r)
    case (Inl e)
    then show ?thesis
      using assms(5) gate i cnt
      by (auto simp: CircuitBreaker_call_def on_failure_def Let_def split: if_splits)
  next
    case (Inr v)
    then show ?thesis
      using assms(5) gate i by (auto simp: CircuitBreaker_call_def on_success_def)
  qed
qed

theorem half_open_recovery_witness:
  "state tripped_breaker = ''open''
   \<and> last_failure_time tripped_breaker = Some 0
   \<and> 75 - 0 \<ge> recovery_timeout tripped_breaker
   \<and> call_gate tripped_breaker 75 = Inr (tripped_breaker\<lparr>state := ''half_open''\<rparr>)
   \<and> state (fst (snd (CircuitBreaker_call tripped_breaker succeeding (fresh_world 0) 75 76))) = ''closed''
   \<and> failure_count (fst (snd (CircuitBreaker_call tripped_breaker succeeding (fresh_world 0) 75 76))) = 0
   \<and> invoked (snd (snd (CircuitBreaker_call tripped_breaker succeeding (fresh_world 0) 75 76))) = [Inr ()]
   \<and> state (fst (snd (CircuitBreaker_call tripped_breaker timing_out (fresh_world 0) 75 76))) = ''open''
   \<and> last_failure_time (fst (snd (CircuitBreaker_call tripped_breaker timing_out (fresh_world 0) 75 76))) = Some 76"
proof -
  let ?ok = "CircuitBreaker_call tripped_breaker succeeding (fresh_world 0) 75 76"
  let ?ko = "CircuitBreaker_call tripped_breaker timing_out (fresh_world 0) 75 76"
  have h1: "state tripped_breaker = ''open''" and h2: "last_failure_time tripped_breaker = Some 0"
    and h3: "75 - 0 \<ge> recovery_timeout tripped_breaker"
    by (simp_all add: tripped)
  have ok: "?ok = (fst ?ok, fst (snd ?ok), snd (snd ?ok))"
    and ko: "?ko = (fst ?ko, fst (snd ?ko), snd (snd ?ko))" by simp_all
  have fok: "fst ?ok = Inr ()" and fko: "fst ?ko = Inl timeout_error"
    and ex: "expected_exceptions tripped_breaker timeout_error"
    and w0: "invoked (fresh_world 0 :: (nat, unit) world) = []"
    unfolding tripped by (simp_all add: breaker_eval)
  note a = half_open_recovery [OF tripped_breaker_def h1 h2 h3 ok]
  note b = half_open_recovery [OF tripped_breaker_def h1 h2 h3 ko]
  have "call_gate tripped_breaker 75 = Inr (tripped_breaker\<lparr>state := ''half_open''\<rparr>)"
    using a by blast
  moreover have "state (fst (snd ?ok)) = ''closed''" "failure_count (fst (snd ?ok)) = 0"
    using a fok by blast+
  moreover have "invoked (snd (snd ?ok)) = [Inr ()]"
    using a fok w0 by simp
  moreover have "state (fst (snd ?ko)) = ''open''" "last_failure_time (fst (snd ?ko)) = Some 76"
    using b fko ex by blast+
  ultimately show ?thesis using h1 h2 h3 by blast
qed

text \<open>
  C5, as the code has it. When an open breaker is called before \<open>recovery_timeout\<close> has
  elapsed since the last failure, the operation is not invoked and the breaker does not
  change; what is raised is a plain \<^verbatim>\<open>Exception\<close> whose message holds the configured
  \<open>recovery_timeout\<close>.
\<close>

theorem open_rejection:
  assumes "state cb = ''open''"
    and "last_failure_time cb = Some t"
    and "now - t < recovery_timeout cb"
  shows "CircuitBreaker_call cb func w now now' =
           (Inl (PyException ''Exception''
               [Text ''Circuit breaker is OPEN. Retry after '', Float (recovery_timeout cb), Text ''s'']),
            cb, w)"
  using assms
  by (simp add: CircuitBreaker_call_def call_gate_def should_attempt_reset_def
      circuit_open_exception_def)

theorem open_rejection_witness:
  "state tripped_breaker = ''open''
   \<and> last_failure_time tripped_breaker = Some 0
   \<and> 10 - 0 < recovery_timeout tripped_breaker
   \<and> CircuitBreaker_call tripped_breaker timing_out (fresh_world 0) 10 10 =
        (Inl (PyException ''Exception''
            [Text ''Circuit breaker is OPEN. Retry after '', Float 60, Text ''s'']),
         tripped_breaker, fresh_world 0)"
proof -
  have h1: "state tripped_breaker = ''open''" and h2: "last_failure_time tripped_breaker = Some 0"
    and h3: "10 - 0 < recovery_timeout tripped_breaker" and rt: "recovery_timeout tripped_breaker = 60"
    by (simp_all add: tripped)
  show ?thesis
    using open_rejection [OF h1 h2 h3, where func = timing_out and w = "fresh_world 0" and now' = 10]
      h1 h2 h3 rt by simp
qed

text \<open>
  C5, as the spec states it, fails. The rejection of a breaker opened at time 0 with a
  timeout of 60 is the same exception at time 10 and at time 50, when 50 and 10 seconds
  of cooldown remain, so it does not carry the remaining cooldown. Its class is the base
  class \<^verbatim>\<open>Exception\<close>, and a closed breaker passing on an upstream failure of that
  class and message raises the very same exception.
\<close>

theorem open_rejection_counterexample:
  "fst (CircuitBreaker_call tripped_breaker timing_out (fresh_world 0) 10 10) =
     Inl (PyException ''Exception''
            [Text ''Circuit breaker is OPEN. Retry after '', Float 60, Text ''s''])
   \<and> fst (CircuitBreaker_call tripped_breaker timing_out (fresh_world 0) 50 50) =
       fst (CircuitBreaker_call tripped_breaker timing_out (fresh_world 0) 10 10)
   \<and> recovery_timeout tripped_breaker - (50 - 0) \<noteq> recovery_timeout tripped_breaker - (10 - 0)
   \<and> fst (CircuitBreaker_call (CircuitBreaker_init 1 60 (\<lambda>e. True)) impostor (fresh_world 0) 10 10) =
       fst (CircuitBreaker_call tripped_breaker timing_out (fresh_world 0) 10 10)"
  unfolding tripped by (simp add: breaker_eval)

section \<open>Properties of the query cache\<close>

subsection \<open>The JSON text determines the query\<close>











lemma key_data_fresh:
  "''query'' \<notin> fst ` set kwargs \<Longrightarrow>
     foldl (\<lambda>d (k, v). od_setitem d k v) ((''query'', q) # d) kwargs =
       (''query'', q) # foldl (\<lambda>d (k, v). od_setitem d k v) d kwargs"
  by (induction kwargs arbitrary: d) auto

















subsection \<open>What a lookup changes\<close>


lemma get_ttl [simp]: "ttl (snd (LRUCache_get c k now now')) = ttl c"
  by (auto simp: LRUCache_get_def split: option.splits)






end
